theory Spec2Isabelle
  imports Main "HOL-Library.Word"
begin

unbundle bit_operations_syntax

section \<open>The SD card of go6502: data model (sd/sd.go)\<close>

text \<open>
  A Go \<^verbatim>\<open>byte\<close>/\<^verbatim>\<open>uint8\<close> is an 8-bit word. A shift \<^verbatim>\<open>1 << n\<close> at type uint8
  is \<open>push_bit n 1\<close>: Go never panics on a large unsigned shift count, the bits
  simply fall off the top and the result is 0, which is what \<open>push_bit\<close> does on a word.
  A comparison \<^verbatim>\<open>x > 0\<close> on an unsigned byte is \<open>0 < x\<close> on the word.
\<close>

type_synonym byte = "8 word"

text \<open>
  \<^verbatim>\<open>type PinMap struct { Sclk, Mosi, Miso, Ss uint }\<close>. Go's \<^verbatim>\<open>uint\<close> is 64 bits wide
  on the usual targets; the code only ever uses a pin number as a shift count.
\<close>

record PinMap =
  Sclk :: "64 word"
  Mosi :: "64 word"
  Miso :: "64 word"
  Ss :: "64 word"

text \<open>\<^verbatim>\<open>func (p PinMap) PinMask() byte\<close>: the four pin bits together.\<close>

definition PinMask :: "PinMap \<Rightarrow> byte" where
  "PinMask p =
     push_bit (unat (Sclk p)) 1 OR push_bit (unat (Mosi p)) 1 OR
     push_bit (unat (Miso p)) 1 OR push_bit (unat (Ss p)) 1"

text \<open>
  \<^verbatim>\<open>type spiState struct\<close>, and \<^verbatim>\<open>type SdCard struct\<close> which embeds it (the fields of
  the embedded struct are fields of the card, as with a record extension).
\<close>

record spiState =
  clock :: bool
  index :: byte
  misoBuffer :: byte
  misoQueue :: "byte list"
  readByte :: byte
  mosiBuffer :: byte

record SdCard = spiState +
  data :: "byte list"
  size_sd :: int
  pinMap :: PinMap
  maskSclk :: byte
  maskMosi :: byte
  maskMiso :: byte
  maskSs :: byte

text \<open>
  The two \<^verbatim>\<open>fmt.Printf\<close> calls of the card are its only effect outside the struct.
  They are modelled as events: the line printed by \<^verbatim>\<open>handleMosiByte\<close> on 0x40, and the
  line printed by \<^verbatim>\<open>logExchange\<close> with the pair (mosi, miso).
\<close>

datatype event = Got0x40 | Exchange byte byte

section \<open>Go slice primitives, with their run-time panics\<close>

text \<open>
  \<^verbatim>\<open>s[i]\<close> panics unless \<open>i < len s\<close>; \<^verbatim>\<open>s[lo:hi]\<close> panics unless \<open>lo \<le> hi\<close> and
  \<open>hi \<le> cap s\<close>. The only slice expression of the card has \<open>hi = len s\<close>, and
  \<open>len s \<le> cap s\<close> always, so the model checks \<open>hi\<close> against the length.
  \<open>None\<close> is the panic.
\<close>

definition go_index :: "'a list \<Rightarrow> nat \<Rightarrow> 'a option" where
  "go_index s i = (if i < length s then Some (s ! i) else None)"

definition go_slice :: "'a list \<Rightarrow> nat \<Rightarrow> nat \<Rightarrow> 'a list option" where
  "go_slice s lo hi = (if lo \<le> hi \<and> hi \<le> length s then Some (take (hi - lo) (drop lo s)) else None)"

section \<open>The operations of the card\<close>

text \<open>\<^verbatim>\<open>func (sd *SdCard) queueMiso(bytes ...byte)\<close>: append keeps the order.\<close>

definition queueMiso :: "byte list \<Rightarrow> SdCard \<Rightarrow> SdCard" where
  "queueMiso bytes sd = sd\<lparr>misoQueue := misoQueue sd @ bytes\<rparr>"

text \<open>\<^verbatim>\<open>func (sd *SdCard) handleMisoByte() byte\<close>.\<close>

definition handleMisoByte :: "SdCard \<Rightarrow> (byte \<times> SdCard) option" where
  "handleMisoByte sd =
    (if length (misoQueue sd) > 0 then
       (case go_index (misoQueue sd) 0 of
          None \<Rightarrow> None
        | Some b \<Rightarrow>
            (let sd = sd\<lparr>misoBuffer := b\<rparr> in
             case go_slice (misoQueue sd) 1 (length (misoQueue sd)) of
               None \<Rightarrow> None
             | Some q \<Rightarrow>
                 (let sd = sd\<lparr>misoQueue := q\<rparr> in Some (misoBuffer sd, sd))))
     else
       (let sd = sd\<lparr>misoBuffer := 0x00\<rparr> in Some (misoBuffer sd, sd)))"

text \<open>\<^verbatim>\<open>func (sd *SdCard) handleMosiByte() byte\<close>: the result, what it prints, the card.\<close>

definition handleMosiByte :: "SdCard \<Rightarrow> byte \<times> event list \<times> SdCard" where
  "handleMosiByte sd =
    (let dat = mosiBuffer sd;
         sd = sd\<lparr>mosiBuffer := 0x00\<rparr>
     in if dat = 0x40 then (dat, [Got0x40], queueMiso [0xAA, 0xAB, 0xAC, 0xAD] sd)
        else (dat, [], sd))"

text \<open>\<^verbatim>\<open>func (sd *SdCard) logExchange(mosi, miso byte)\<close> prints one line.\<close>

definition logExchange :: "byte \<Rightarrow> byte \<Rightarrow> event list" where
  "logExchange mosi miso = [Exchange mosi miso]"

text \<open>
  \<^verbatim>\<open>LoadFile\<close> reads a file into \<^verbatim>\<open>data\<close> and \<^verbatim>\<open>size\<close>, which no other method looks
  at, and \<^verbatim>\<open>Shutdown\<close> does nothing; neither is modelled.

  \<^verbatim>\<open>func NewSdCard(pm PinMap) (sd *SdCard, err error)\<close>. The Go function never sets
  \<^verbatim>\<open>err\<close>; the only way it can fail is a panic, which is \<open>None\<close> here. Every field that
  the constructor does not set has Go's zero value.
\<close>

definition NewSdCard :: "PinMap \<Rightarrow> SdCard option" where
  "NewSdCard pm =
    (let sd = \<lparr>clock = False, index = 0, misoBuffer = 0, misoQueue = [], readByte = 0,
               mosiBuffer = 0, data = [], size_sd = 0, pinMap = pm,
               maskSclk = 0, maskMosi = 0, maskMiso = 0, maskSs = 0\<rparr>;
         sd = sd\<lparr>maskSclk := push_bit (unat (Sclk pm)) 1\<rparr>;
         sd = sd\<lparr>maskMosi := push_bit (unat (Mosi pm)) 1\<rparr>;
         sd = sd\<lparr>maskMiso := push_bit (unat (Miso pm)) 1\<rparr>;
         sd = sd\<lparr>maskSs := push_bit (unat (Ss pm)) 1\<rparr>;
         sd = sd\<lparr>index := 7\<rparr>;
         sd = sd\<lparr>misoQueue := []\<rparr>;
         sd = queueMiso [0x00, 0x00, 0x00, 0xFF] sd
     in case handleMisoByte sd of
          None \<Rightarrow> None
        | Some (b, sd) \<Rightarrow> Some sd)"

text \<open>
  \<^verbatim>\<open>func (sd *SdCard) Read() byte\<close>. The method has a pointer receiver, so the model
  returns the card as well as the byte.
\<close>

definition Read :: "SdCard \<Rightarrow> byte \<times> SdCard" where
  "Read sd = (readByte sd, sd)"

text \<open>
  \<^verbatim>\<open>func (sd *SdCard) Write(data byte)\<close>: what it prints and the card afterwards,
  \<open>None\<close> for a panic.
\<close>

definition Write :: "byte \<Rightarrow> SdCard \<Rightarrow> (event list \<times> SdCard) option" where
  "Write dat sd =
    (let cs = (dat AND maskSs sd > 0) in
     if cs then Some ([], sd)
     else
       let mosi = (dat AND maskMosi sd > 0);
           clk = (dat AND maskSclk sd > 0);
           rising = (\<not> clock sd \<and> clk);
           falling = (clock sd \<and> \<not> clk);
           sd = sd\<lparr>clock := clk\<rparr>;
           sd = (if rising then
                   (if misoBuffer sd AND push_bit (unat (index sd)) 1 > 0
                    then sd\<lparr>readByte := 0x00 OR maskMiso sd\<rparr>
                    else sd\<lparr>readByte := 0x00\<rparr>)
                 else sd)
       in
         if falling then
           (let sd = (if mosi then sd\<lparr>mosiBuffer := mosiBuffer sd OR push_bit (unat (index sd)) 1\<rparr>
                      else sd)
            in if index sd = 0 then
                 (case handleMosiByte sd of
                    (mosiByte, ev, sd) \<Rightarrow>
                      (case handleMisoByte sd of
                         None \<Rightarrow> None
                       | Some (misoByte, sd) \<Rightarrow>
                           Some (ev @ logExchange mosiByte misoByte, sd\<lparr>index := 7\<rparr>)))
               else Some ([], sd\<lparr>index := index sd - 1\<rparr>))
         else Some ([], sd))"

section \<open>Sequences of calls\<close>

text \<open>
  The host drives the card by a sequence of \<^verbatim>\<open>Write\<close> and \<^verbatim>\<open>Read\<close> calls. \<open>run\<close>
  performs such a sequence and gives the bytes the \<^verbatim>\<open>Read\<close> calls returned, in order,
  everything printed, and the card afterwards. A panic of any call ends the run.
\<close>

datatype call = CallWrite byte | CallRead

fun run :: "call list \<Rightarrow> SdCard \<Rightarrow> (byte list \<times> event list \<times> SdCard) option" where
  "run [] sd = Some ([], [], sd)"
| "run (CallWrite d # cs) sd =
     (case Write d sd of
        None \<Rightarrow> None
      | Some (ev, sd') \<Rightarrow>
          (case run cs sd' of
             None \<Rightarrow> None
           | Some (rs, evs, sd'') \<Rightarrow> Some (rs, ev @ evs, sd'')))"
| "run (CallRead # cs) sd =
     (case Read sd of
        (r, sd') \<Rightarrow>
          (case run cs sd' of
             None \<Rightarrow> None
           | Some (rs, evs, sd'') \<Rightarrow> Some (r # rs, evs, sd'')))"

text \<open>
  One clock cycle as the host produces it: a write \<open>r\<close> that raises the clock, a read of
  the port, a write \<open>f\<close> that lowers the clock. \<open>cycles\<close> is a sequence of them.
\<close>

definition cycle :: "byte \<times> byte \<Rightarrow> call list" where
  "cycle p = [CallWrite (fst p), CallRead, CallWrite (snd p)]"

definition cycles :: "(byte \<times> byte) list \<Rightarrow> call list" where
  "cycles ps = concat (map cycle ps)"

text \<open>The pin levels that \<^verbatim>\<open>Write\<close> reads off a port byte.\<close>

definition selected :: "SdCard \<Rightarrow> byte \<Rightarrow> bool" where
  "selected sd d = (\<not> d AND maskSs sd > 0)"

definition clockLevel :: "SdCard \<Rightarrow> byte \<Rightarrow> bool" where
  "clockLevel sd d = (d AND maskSclk sd > 0)"

definition mosiLevel :: "SdCard \<Rightarrow> byte \<Rightarrow> bool" where
  "mosiLevel sd d = (d AND maskMosi sd > 0)"

text \<open>
  A pair of port bytes is a clock cycle for the card when both keep it selected, the
  first has the clock high and the second has the clock low.
\<close>

definition clockCycle :: "SdCard \<Rightarrow> byte \<times> byte \<Rightarrow> bool" where
  "clockCycle sd p =
     (selected sd (fst p) \<and> clockLevel sd (fst p) \<and> selected sd (snd p) \<and> \<not> clockLevel sd (snd p))"

text \<open>
  The level of the output line for a bit, as \<^verbatim>\<open>Write\<close> stores it in \<^verbatim>\<open>readByte\<close>:
  the Miso mask when the bit is set, 0 when it is clear. \<open>shiftedOut sd B\<close> is the
  eight levels of the byte \<open>B\<close>, most significant bit first.
\<close>

definition level :: "byte \<Rightarrow> bool \<Rightarrow> byte" where
  "level msk b = (if b then msk else 0)"

definition misoLevel :: "SdCard \<Rightarrow> bool \<Rightarrow> byte" where
  "misoLevel sd b = level (maskMiso sd) b"

definition shiftedOut :: "SdCard \<Rightarrow> byte \<Rightarrow> byte list" where
  "shiftedOut sd B = map (\<lambda>k. misoLevel sd (bit B k)) [7, 6, 5, 4, 3, 2, 1, 0]"

text \<open>
  A host that sends the byte \<open>V\<close> to the card, most significant bit first: for each bit
  a write with the clock high and a write with the clock low, both with the select line
  low and the data-out line at the level of the bit.
\<close>

definition hostByte :: "SdCard \<Rightarrow> byte \<Rightarrow> (byte \<times> byte) list" where
  "hostByte sd V =
     map (\<lambda>k. (maskSclk sd OR level (maskMosi sd) (bit V k), level (maskMosi sd) (bit V k)))
       [7, 6, 5, 4, 3, 2, 1, 0]"

text \<open>A card is constructed and then driven by a sequence of calls.\<close>

definition session :: "PinMap \<Rightarrow> call list \<Rightarrow> (byte list \<times> event list \<times> SdCard) option" where
  "session pm cs = (case NewSdCard pm of None \<Rightarrow> None | Some sd \<Rightarrow> run cs sd)"

text \<open>An example pin assignment, and the card that \<^verbatim>\<open>NewSdCard\<close> builds for it.\<close>

definition pins0 :: PinMap where
  "pins0 = \<lparr>Sclk = 0, Mosi = 1, Miso = 2, Ss = 3\<rparr>"

definition card0 :: SdCard where
  "card0 = \<lparr>clock = False, index = 7, misoBuffer = 0, misoQueue = [0x00, 0x00, 0xFF],
            readByte = 0, mosiBuffer = 0, data = [], size_sd = 0, pinMap = pins0,
            maskSclk = 1, maskMosi = 2, maskMiso = 4, maskSs = 8\<rparr>"

section \<open>Auxiliary notions for the proofs\<close>

text \<open>
  The bit that a falling edge ORs into \<^verbatim>\<open>mosiBuffer\<close>, and the byte that a list of
  data-out levels assembles when the first level goes to bit \<open>n\<close>.
\<close>

definition inbit :: "bool \<Rightarrow> nat \<Rightarrow> byte" where
  "inbit b n = (if b then push_bit n 1 else 0)"

fun inbits :: "nat \<Rightarrow> bool list \<Rightarrow> byte" where
  "inbits n [] = 0"
| "inbits n (b # bs) = inbit b n OR inbits (n - 1) bs"

text \<open>What the byte-boundary handlers do for a completed input byte \<open>m\<close>.\<close>

definition respond :: "byte \<Rightarrow> byte list" where
  "respond m = (if m = 0x40 then [0xAA, 0xAB, 0xAC, 0xAD] else [])"

definition shout :: "byte \<Rightarrow> event list" where
  "shout m = (if m = 0x40 then [Got0x40] else [])"

definition front :: "byte list \<Rightarrow> byte" where
  "front q = (case q of [] \<Rightarrow> 0 | x # xs \<Rightarrow> x)"

text \<open>The port value a read sees after a write with the clock high.\<close>

definition sample :: "SdCard \<Rightarrow> byte" where
  "sample sd =
     (if clock sd then readByte sd
      else level (maskMiso sd) (bit (misoBuffer sd) (unat (index sd))))"

definition prepend :: "byte \<Rightarrow> (byte list \<times> event list \<times> SdCard) option
    \<Rightarrow> (byte list \<times> event list \<times> SdCard) option" where
  "prepend s x = (case x of None \<Rightarrow> None | Some (rs, evs, sd) \<Rightarrow> Some (s # rs, evs, sd))"

text \<open>
  What holds of every card that \<^verbatim>\<open>NewSdCard\<close> built for the pin map \<open>pm\<close>, however it
  was driven since: the masks are the ones the constructor computed, the index is at
  most 7, and \<^verbatim>\<open>readByte\<close> is 0 or the Miso mask.
\<close>

definition wired :: "PinMap \<Rightarrow> SdCard \<Rightarrow> bool" where
  "wired pm sd =
     (pinMap sd = pm \<and>
      maskSclk sd = push_bit (unat (Sclk pm)) 1 \<and> maskMosi sd = push_bit (unat (Mosi pm)) 1 \<and>
      maskMiso sd = push_bit (unat (Miso pm)) 1 \<and> maskSs sd = push_bit (unat (Ss pm)) 1)"

definition cardInv :: "PinMap \<Rightarrow> SdCard \<Rightarrow> bool" where
  "cardInv pm sd =
     (wired pm sd \<and> index sd \<le> 7 \<and> (readByte sd = 0 \<or> readByte sd = maskMiso sd))"

section \<open>Basic facts\<close>

lemma handleMisoByte_eq:
  "handleMisoByte sd =
     (case misoQueue sd of
        [] \<Rightarrow> Some (0, sd\<lparr>misoBuffer := 0\<rparr>)
      | b # q \<Rightarrow> Some (b, sd\<lparr>misoBuffer := b, misoQueue := q\<rparr>))"
  by (cases "misoQueue sd") (simp_all add: handleMisoByte_def go_index_def go_slice_def)

lemma word_pos_iff: "(0 < (w::byte)) = (w \<noteq> 0)"
  by (simp add: word_neq_0_conv)

lemma and_bit_pos: "(0 < (b::byte) AND 2 ^ n) = bit b n"
  by (simp add: word_neq_0_conv[symmetric] and_exp_eq_0_iff_not_bit)

subsection \<open>One write, by the edge it makes\<close>

lemma Write_deselected:
  "\<not> selected sd d \<Longrightarrow> Write d sd = Some ([], sd)"
  by (simp add: Write_def selected_def)

lemma Write_steady:
  "selected sd d \<Longrightarrow> clockLevel sd d = clock sd \<Longrightarrow> Write d sd = Some ([], sd)"
  by (auto simp add: Write_def selected_def clockLevel_def Let_def)

lemma Write_rising:
  "selected sd d \<Longrightarrow> clockLevel sd d \<Longrightarrow> \<not> clock sd \<Longrightarrow>
   Write d sd = Some ([], sd\<lparr>clock := True,
       readByte := misoLevel sd (bit (misoBuffer sd) (unat (index sd)))\<rparr>)"
  by (auto simp add: Write_def selected_def clockLevel_def Let_def misoLevel_def level_def and_bit_pos)

lemma Write_falling_mid:
  "selected sd d \<Longrightarrow> \<not> clockLevel sd d \<Longrightarrow> clock sd \<Longrightarrow> index sd \<noteq> 0 \<Longrightarrow>
   Write d sd = Some ([], sd\<lparr>clock := False,
      mosiBuffer := (if mosiLevel sd d then mosiBuffer sd OR push_bit (unat (index sd)) 1
                     else mosiBuffer sd),
      index := index sd - 1\<rparr>)"
  by (auto simp add: Write_def selected_def clockLevel_def mosiLevel_def Let_def)

lemma Write_falling_last:
  "selected sd d \<Longrightarrow> \<not> clockLevel sd d \<Longrightarrow> clock sd \<Longrightarrow> index sd = 0 \<Longrightarrow>
   Write d sd =
    (let m = (if mosiLevel sd d then mosiBuffer sd OR 1 else mosiBuffer sd);
         q = misoQueue sd @ (if m = 0x40 then [0xAA, 0xAB, 0xAC, 0xAD] else []);
         b = (case q of [] \<Rightarrow> 0 | x # xs \<Rightarrow> x)
     in Some ((if m = 0x40 then [Got0x40] else []) @ [Exchange m b],
          sd\<lparr>clock := False, mosiBuffer := 0, misoBuffer := b, misoQueue := tl q, index := 7\<rparr>))"
  by (auto simp add: Write_def selected_def clockLevel_def mosiLevel_def Let_def handleMosiByte_def
     handleMisoByte_eq queueMiso_def logExchange_def split: list.splits)

lemma Write_high:
  assumes "d AND maskSs sd = 0" "d AND maskSclk sd \<noteq> 0"
  shows "Write d sd = Some ([], sd\<lparr>clock := True, readByte := sample sd\<rparr>)"
proof (cases "clock sd")
  case True
  then have "sd\<lparr>clock := True, readByte := readByte sd\<rparr> = sd" by simp
  with True assms show ?thesis
    using Write_steady[of sd d] by (simp add: sample_def selected_def clockLevel_def word_pos_iff)
next
  case False
  with assms show ?thesis
    using Write_rising[of sd d]
    by (simp add: sample_def misoLevel_def selected_def clockLevel_def word_pos_iff)
qed

lemma Write_Some: "\<exists>ev sd'. Write d sd = Some (ev, sd')"
proof (cases "selected sd d")
  case False
  then show ?thesis by (simp add: Write_deselected)
next
  case sel: True
  show ?thesis
  proof (cases "clockLevel sd d = clock sd")
    case True
    with sel show ?thesis by (simp add: Write_steady)
  next
    case False
    show ?thesis
    proof (cases "clock sd")
      case low: False
      with False have "clockLevel sd d" by simp
      with sel low show ?thesis by (simp add: Write_rising)
    next
      case high: True
      with False have nc: "\<not> clockLevel sd d" by simp
      show ?thesis
      proof (cases "index sd = 0")
        case True
        with sel high nc show ?thesis by (simp add: Write_falling_last Let_def)
      next
        case False
        with sel high nc show ?thesis by (simp add: Write_falling_mid)
      qed
    qed
  qed
qed

lemma NewSdCard_eq:
  "NewSdCard pm =
     Some \<lparr>clock = False, index = 7, misoBuffer = 0, misoQueue = [0x00, 0x00, 0xFF],
           readByte = 0, mosiBuffer = 0, data = [], size_sd = 0, pinMap = pm,
           maskSclk = push_bit (unat (Sclk pm)) 1, maskMosi = push_bit (unat (Mosi pm)) 1,
           maskMiso = push_bit (unat (Miso pm)) 1, maskSs = push_bit (unat (Ss pm)) 1\<rparr>"
  by (simp add: NewSdCard_def queueMiso_def handleMisoByte_eq)

subsection \<open>One clock cycle, and the eight cycles of a byte\<close>

lemma cycle_mid:
  assumes "r AND maskSs sd = 0" "r AND maskSclk sd \<noteq> 0"
          "f AND maskSs sd = 0" "f AND maskSclk sd = 0" "index sd \<noteq> 0"
  shows "run (CallWrite r # CallRead # CallWrite f # cs) sd =
         prepend (sample sd)
           (run cs (sd\<lparr>clock := False, readByte := sample sd,
                       mosiBuffer := mosiBuffer sd OR inbit (0 < f AND maskMosi sd) (unat (index sd)),
                       index := index sd - 1\<rparr>))"
proof -
  let ?sd1 = "sd\<lparr>clock := True, readByte := sample sd\<rparr>"
  let ?sd2 = "sd\<lparr>clock := False, readByte := sample sd,
                       mosiBuffer := mosiBuffer sd OR inbit (0 < f AND maskMosi sd) (unat (index sd)),
                       index := index sd - 1\<rparr>"
  have w1: "Write r sd = Some ([], ?sd1)" using assms by (simp add: Write_high)
  have "Write f ?sd1 = Some ([], ?sd1\<lparr>clock := False,
      mosiBuffer := (if mosiLevel ?sd1 f then mosiBuffer ?sd1 OR push_bit (unat (index ?sd1)) 1
                     else mosiBuffer ?sd1),
      index := index ?sd1 - 1\<rparr>)"
    using assms by (intro Write_falling_mid) (simp_all add: selected_def clockLevel_def word_pos_iff)
  also have "?sd1\<lparr>clock := False,
      mosiBuffer := (if mosiLevel ?sd1 f then mosiBuffer ?sd1 OR push_bit (unat (index ?sd1)) 1
                     else mosiBuffer ?sd1),
      index := index ?sd1 - 1\<rparr> = ?sd2"
    by (simp add: inbit_def mosiLevel_def)
  finally have w2: "Write f ?sd1 = Some ([], ?sd2)" .
  show ?thesis
    by (cases "run cs ?sd2") (auto simp add: w1 w2 Read_def prepend_def)
qed

lemma cycle_last:
  assumes "r AND maskSs sd = 0" "r AND maskSclk sd \<noteq> 0"
          "f AND maskSs sd = 0" "f AND maskSclk sd = 0" "index sd = 0"
  shows "run [CallWrite r, CallRead, CallWrite f] sd =
         Some ([sample sd],
               shout (mosiBuffer sd OR inbit (0 < f AND maskMosi sd) 0) @
               [Exchange (mosiBuffer sd OR inbit (0 < f AND maskMosi sd) 0)
                  (front (misoQueue sd @ respond (mosiBuffer sd OR inbit (0 < f AND maskMosi sd) 0)))],
               sd\<lparr>clock := False, readByte := sample sd, mosiBuffer := 0,
                   misoBuffer := front (misoQueue sd @ respond (mosiBuffer sd OR inbit (0 < f AND maskMosi sd) 0)),
                   misoQueue := tl (misoQueue sd @ respond (mosiBuffer sd OR inbit (0 < f AND maskMosi sd) 0)),
                   index := 7\<rparr>)"
proof -
  let ?sd1 = "sd\<lparr>clock := True, readByte := sample sd\<rparr>"
  let ?m = "mosiBuffer sd OR inbit (0 < f AND maskMosi sd) 0"
  let ?q = "misoQueue sd @ respond ?m"
  let ?sd2 = "sd\<lparr>clock := False, readByte := sample sd, mosiBuffer := 0,
                   misoBuffer := front ?q, misoQueue := tl ?q, index := 7\<rparr>"
  have w1: "Write r sd = Some ([], ?sd1)" using assms by (simp add: Write_high)
  have "Write f ?sd1 =
     (let m = (if mosiLevel ?sd1 f then mosiBuffer ?sd1 OR 1 else mosiBuffer ?sd1);
          q = misoQueue ?sd1 @ (if m = 0x40 then [0xAA, 0xAB, 0xAC, 0xAD] else []);
          b = (case q of [] \<Rightarrow> 0 | x # xs \<Rightarrow> x)
      in Some ((if m = 0x40 then [Got0x40] else []) @ [Exchange m b],
          ?sd1\<lparr>clock := False, mosiBuffer := 0, misoBuffer := b, misoQueue := tl q, index := 7\<rparr>))"
    using assms by (intro Write_falling_last) (simp_all add: selected_def clockLevel_def word_pos_iff)
  also have "\<dots> = Some (shout ?m @ [Exchange ?m (front ?q)], ?sd2)"
    by (cases "mosiLevel sd f")
       (simp_all add: inbit_def mosiLevel_def respond_def front_def shout_def Let_def)
  finally have w2: "Write f ?sd1 = Some (shout ?m @ [Exchange ?m (front ?q)], ?sd2)" .
  show ?thesis
    by (simp add: w1 w2 Read_def)
qed

lemma sample_low:
  "\<not> clock sd \<Longrightarrow> sample sd = level (maskMiso sd) (bit (misoBuffer sd) (unat (index sd)))"
  by (simp add: sample_def)

lemma exchange8:
  assumes idx: "index sd = 7"
    and r: "r0 AND maskSs sd = 0" "r1 AND maskSs sd = 0" "r2 AND maskSs sd = 0" "r3 AND maskSs sd = 0"
           "r4 AND maskSs sd = 0" "r5 AND maskSs sd = 0" "r6 AND maskSs sd = 0" "r7 AND maskSs sd = 0"
    and rc: "r0 AND maskSclk sd \<noteq> 0" "r1 AND maskSclk sd \<noteq> 0" "r2 AND maskSclk sd \<noteq> 0"
           "r3 AND maskSclk sd \<noteq> 0" "r4 AND maskSclk sd \<noteq> 0" "r5 AND maskSclk sd \<noteq> 0"
           "r6 AND maskSclk sd \<noteq> 0" "r7 AND maskSclk sd \<noteq> 0"
    and f: "f0 AND maskSs sd = 0" "f1 AND maskSs sd = 0" "f2 AND maskSs sd = 0" "f3 AND maskSs sd = 0"
           "f4 AND maskSs sd = 0" "f5 AND maskSs sd = 0" "f6 AND maskSs sd = 0" "f7 AND maskSs sd = 0"
    and fc: "f0 AND maskSclk sd = 0" "f1 AND maskSclk sd = 0" "f2 AND maskSclk sd = 0"
           "f3 AND maskSclk sd = 0" "f4 AND maskSclk sd = 0" "f5 AND maskSclk sd = 0"
           "f6 AND maskSclk sd = 0" "f7 AND maskSclk sd = 0"
  shows "run (cycles [(r0,f0),(r1,f1),(r2,f2),(r3,f3),(r4,f4),(r5,f5),(r6,f6),(r7,f7)]) sd =
    (let B = misoBuffer sd;
         m = mosiBuffer sd OR inbit (0 < f0 AND maskMosi sd) 7 OR inbit (0 < f1 AND maskMosi sd) 6
               OR inbit (0 < f2 AND maskMosi sd) 5 OR inbit (0 < f3 AND maskMosi sd) 4
               OR inbit (0 < f4 AND maskMosi sd) 3 OR inbit (0 < f5 AND maskMosi sd) 2
               OR inbit (0 < f6 AND maskMosi sd) 1 OR inbit (0 < f7 AND maskMosi sd) 0;
         q = misoQueue sd @ respond m
     in Some ([sample sd, level (maskMiso sd) (bit B 6), level (maskMiso sd) (bit B 5),
               level (maskMiso sd) (bit B 4), level (maskMiso sd) (bit B 3),
               level (maskMiso sd) (bit B 2), level (maskMiso sd) (bit B 1),
               level (maskMiso sd) (bit B 0)],
              shout m @ [Exchange m (front q)],
              sd\<lparr>clock := False, readByte := level (maskMiso sd) (bit B 0), mosiBuffer := 0,
                     misoBuffer := front q, misoQueue := tl q, index := 7\<rparr>))"
  using assms
  by (simp add: cycles_def cycle_def cycle_mid cycle_last prepend_def Let_def sample_low or.assoc
       del: run.simps)

lemma inbit_bit: "inbit (bit (V::byte) n) n = V AND push_bit n 1"
  by (rule bit_word_eqI) (auto simp add: inbit_def bit_simps)

lemma and_or_distrib: "((V::byte) AND a) OR (V AND b) = V AND (a OR b)"
  by (simp add: bit.conj_disj_distrib)

lemma and_255: "(V::byte) AND 255 = V"
proof -
  have "(255::byte) = mask 8" by (simp add: mask_eq_exp_minus_1)
  then have "V AND 255 = take_bit 8 V" by (simp add: take_bit_eq_mask)
  also have "\<dots> = V" by (simp add: take_bit_word_eq_self)
  finally show ?thesis .
qed

lemma inbits_bits: "inbits 7 (map (bit V) [7, 6, 5, 4, 3, 2, 1, 0]) = V"
proof -
  have "inbits 7 (map (bit V) [7, 6, 5, 4, 3, 2, 1, 0]) =
        (V AND 128) OR ((V AND 64) OR ((V AND 32) OR ((V AND 16) OR
          ((V AND 8) OR ((V AND 4) OR ((V AND 2) OR (V AND 1)))))))"
    using inbit_bit[of V 7] inbit_bit[of V 6] inbit_bit[of V 5] inbit_bit[of V 4]
          inbit_bit[of V 3] inbit_bit[of V 2] inbit_bit[of V 1] inbit_bit[of V 0]
    by simp
  also have "\<dots> = V AND 255"
    by (simp only: and_or_distrib) simp
  finally show ?thesis by (simp only: and_255)
qed

lemma list8:
  assumes "length ps = 8"
  obtains p0 p1 p2 p3 p4 p5 p6 p7 where "ps = [p0, p1, p2, p3, p4, p5, p6, p7]"
proof -
  from assms obtain p0 p1 p2 p3 p4 p5 p6 p7 where "ps = [p0, p1, p2, p3, p4, p5, p6, p7]"
    by (auto simp add: numeral_eq_Suc length_Suc_conv)
  then show ?thesis by (rule that)
qed

lemma exchange_byte:
  assumes idx: "index sd = 7" and len: "length ps = 8"
      and ok: "\<forall>p\<in>set ps. clockCycle sd p"
  shows "run (cycles ps) sd =
    Some (sample sd # map (\<lambda>k. level (maskMiso sd) (bit (misoBuffer sd) k)) [6, 5, 4, 3, 2, 1, 0],
          shout (mosiBuffer sd OR inbits 7 (map (\<lambda>p. mosiLevel sd (snd p)) ps)) @
          [Exchange (mosiBuffer sd OR inbits 7 (map (\<lambda>p. mosiLevel sd (snd p)) ps))
             (front (misoQueue sd @
                respond (mosiBuffer sd OR inbits 7 (map (\<lambda>p. mosiLevel sd (snd p)) ps))))],
          sd\<lparr>clock := False, readByte := level (maskMiso sd) (bit (misoBuffer sd) 0), mosiBuffer := 0,
             misoBuffer := front (misoQueue sd @
                respond (mosiBuffer sd OR inbits 7 (map (\<lambda>p. mosiLevel sd (snd p)) ps))),
             misoQueue := tl (misoQueue sd @
                respond (mosiBuffer sd OR inbits 7 (map (\<lambda>p. mosiLevel sd (snd p)) ps))),
             index := 7\<rparr>)"
proof -
  from len obtain p0 p1 p2 p3 p4 p5 p6 p7 where ps: "ps = [p0, p1, p2, p3, p4, p5, p6, p7]"
    by (rule list8)
  obtain r0 f0 r1 f1 r2 f2 r3 f3 r4 f4 r5 f5 r6 f6 r7 f7 where
    p: "p0 = (r0, f0)" "p1 = (r1, f1)" "p2 = (r2, f2)" "p3 = (r3, f3)"
       "p4 = (r4, f4)" "p5 = (r5, f5)" "p6 = (r6, f6)" "p7 = (r7, f7)"
    by (metis surj_pair)
  from ok have c:
    "r0 AND maskSs sd = 0" "r1 AND maskSs sd = 0" "r2 AND maskSs sd = 0" "r3 AND maskSs sd = 0"
    "r4 AND maskSs sd = 0" "r5 AND maskSs sd = 0" "r6 AND maskSs sd = 0" "r7 AND maskSs sd = 0"
    "r0 AND maskSclk sd \<noteq> 0" "r1 AND maskSclk sd \<noteq> 0" "r2 AND maskSclk sd \<noteq> 0"
    "r3 AND maskSclk sd \<noteq> 0" "r4 AND maskSclk sd \<noteq> 0" "r5 AND maskSclk sd \<noteq> 0"
    "r6 AND maskSclk sd \<noteq> 0" "r7 AND maskSclk sd \<noteq> 0"
    "f0 AND maskSs sd = 0" "f1 AND maskSs sd = 0" "f2 AND maskSs sd = 0" "f3 AND maskSs sd = 0"
    "f4 AND maskSs sd = 0" "f5 AND maskSs sd = 0" "f6 AND maskSs sd = 0" "f7 AND maskSs sd = 0"
    "f0 AND maskSclk sd = 0" "f1 AND maskSclk sd = 0" "f2 AND maskSclk sd = 0"
    "f3 AND maskSclk sd = 0" "f4 AND maskSclk sd = 0" "f5 AND maskSclk sd = 0"
    "f6 AND maskSclk sd = 0" "f7 AND maskSclk sd = 0"
    by (simp_all add: ps p clockCycle_def selected_def clockLevel_def word_pos_iff)
  show ?thesis
    unfolding ps p
    by (simp add: exchange8[OF idx c] Let_def mosiLevel_def or.assoc)
qed

subsection \<open>Composing runs\<close>

lemma run_append:
  "run (cs1 @ cs2) sd =
     (case run cs1 sd of
        None \<Rightarrow> None
      | Some (rs1, ev1, sd1) \<Rightarrow>
          (case run cs2 sd1 of
             None \<Rightarrow> None
           | Some (rs2, ev2, sd2) \<Rightarrow> Some (rs1 @ rs2, ev1 @ ev2, sd2)))"
proof (induction cs1 arbitrary: sd)
  case Nil
  show ?case by (simp split: option.splits)
next
  case (Cons c cs1)
  show ?case
  proof (cases c)
    case (CallWrite d)
    then show ?thesis by (simp add: Cons.IH split: option.splits)
  next
    case CallRead
    then show ?thesis by (simp add: Cons.IH Read_def split: option.splits)
  qed
qed

lemma cycles_append: "cycles (ps @ qs) = cycles ps @ cycles qs"
  by (simp add: cycles_def)

subsection \<open>The invariant of a constructed card\<close>

lemma index_pred_le: "x \<noteq> 0 \<Longrightarrow> x \<le> 7 \<Longrightarrow> x - 1 \<le> (7::byte)"
  by (simp add: word_le_nat_alt unat_minus_one)

lemma NewSdCard_inv: "\<exists>sd. NewSdCard pm = Some sd \<and> cardInv pm sd \<and> index sd = 7"
  by (simp add: NewSdCard_eq cardInv_def wired_def)

lemma Write_inv:
  assumes inv: "cardInv pm sd" and w: "Write d sd = Some (ev, sd')"
  shows "cardInv pm sd'"
proof (cases "selected sd d")
  case False
  with inv w show ?thesis by (simp add: Write_deselected)
next
  case sel: True
  show ?thesis
  proof (cases "clockLevel sd d = clock sd")
    case True
    with sel inv w show ?thesis by (simp add: Write_steady)
  next
    case False
    show ?thesis
    proof (cases "clock sd")
      case low: False
      with False have "clockLevel sd d" by simp
      with sel low inv w show ?thesis
        by (auto simp add: Write_rising cardInv_def wired_def misoLevel_def level_def)
    next
      case high: True
      with False have nc: "\<not> clockLevel sd d" by simp
      show ?thesis
      proof (cases "index sd = 0")
        case True
        with sel high nc inv w show ?thesis
          by (auto simp add: Write_falling_last Let_def cardInv_def wired_def)
      next
        case False
        with sel high nc inv w show ?thesis
          by (auto simp add: Write_falling_mid cardInv_def wired_def index_pred_le)
      qed
    qed
  qed
qed

lemma run_inv:
  "cardInv pm sd \<Longrightarrow>
   \<exists>rs evs sd'. run cs sd = Some (rs, evs, sd') \<and> cardInv pm sd' \<and>
      list_all (\<lambda>r. r = 0 \<or> r = push_bit (unat (Miso pm)) 1) rs"
proof (induction cs arbitrary: sd)
  case Nil
  then show ?case by simp
next
  case (Cons c cs)
  show ?case
  proof (cases c)
    case (CallWrite d)
    obtain ev sd1 where w: "Write d sd = Some (ev, sd1)"
      using Write_Some[of d sd] by auto
    with Cons.prems have "cardInv pm sd1" by (rule Write_inv)
    from Cons.IH[OF this] w CallWrite show ?thesis by auto
  next
    case CallRead
    from Cons.prems have "readByte sd = 0 \<or> readByte sd = push_bit (unat (Miso pm)) 1"
      by (auto simp add: cardInv_def wired_def)
    with Cons.IH[OF Cons.prems] CallRead show ?thesis by (auto simp add: Read_def)
  qed
qed

lemma session_inv:
  "\<exists>rs evs sd. session pm cs = Some (rs, evs, sd) \<and> cardInv pm sd \<and>
      list_all (\<lambda>r. r = 0 \<or> r = push_bit (unat (Miso pm)) 1) rs"
proof -
  obtain sd0 where "NewSdCard pm = Some sd0" "cardInv pm sd0"
    using NewSdCard_inv[of pm] by auto
  with run_inv[of pm sd0 cs] show ?thesis by (simp add: session_def)
qed

subsection \<open>Several bytes in a row\<close>

lemma clockCycle_masks:
  "maskSs sd' = maskSs sd \<Longrightarrow> maskSclk sd' = maskSclk sd \<Longrightarrow> clockCycle sd' p = clockCycle sd p"
  by (simp add: clockCycle_def selected_def clockLevel_def)

lemma shiftedOut_masks: "maskMiso sd' = maskMiso sd \<Longrightarrow> shiftedOut sd' B = shiftedOut sd B"
  by (simp add: shiftedOut_def misoLevel_def)

lemma exchange_byte_low:
  assumes "index sd = 7" and "\<not> clock sd" and "mosiBuffer sd = 0" and "length ps = 8"
      and "\<forall>p\<in>set ps. clockCycle sd p"
  shows "\<exists>ev sd1. run (cycles ps) sd = Some (shiftedOut sd (misoBuffer sd), ev, sd1) \<and>
           index sd1 = 7 \<and> \<not> clock sd1 \<and> mosiBuffer sd1 = 0 \<and>
           maskSs sd1 = maskSs sd \<and> maskSclk sd1 = maskSclk sd \<and>
           maskMosi sd1 = maskMosi sd \<and> maskMiso sd1 = maskMiso sd \<and>
           misoBuffer sd1 =
             front (misoQueue sd @ respond (inbits 7 (map (\<lambda>p. mosiLevel sd (snd p)) ps))) \<and>
           misoQueue sd1 =
             tl (misoQueue sd @ respond (inbits 7 (map (\<lambda>p. mosiLevel sd (snd p)) ps)))"
  unfolding exchange_byte[OF assms(1) assms(4) assms(5)]
  using assms(1-3) by (simp add: shiftedOut_def misoLevel_def sample_low)

lemma drain:
  assumes "index sd = 7" and "\<not> clock sd" and "mosiBuffer sd = 0"
      and "\<forall>ps\<in>set pss. length ps = 8 \<and> (\<forall>p\<in>set ps. clockCycle sd p)"
      and "length pss \<le> Suc (length (misoQueue sd))"
  shows "\<exists>evs sd'. run (cycles (concat pss)) sd =
           Some (concat (map (shiftedOut sd) (take (length pss) (misoBuffer sd # misoQueue sd))),
                 evs, sd')"
  using assms
proof (induction pss arbitrary: sd)
  case Nil
  show ?case by (simp add: cycles_def)
next
  case (Cons ps pss)
  from Cons.prems(4) have len: "length ps = 8" and ok: "\<forall>p\<in>set ps. clockCycle sd p"
    by simp_all
  let ?m = "inbits 7 (map (\<lambda>p. mosiLevel sd (snd p)) ps)"
  obtain ev sd1 where r1: "run (cycles ps) sd = Some (shiftedOut sd (misoBuffer sd), ev, sd1)"
    and s1: "index sd1 = 7" "\<not> clock sd1" "mosiBuffer sd1 = 0"
    and m1: "maskSs sd1 = maskSs sd" "maskSclk sd1 = maskSclk sd" "maskMiso sd1 = maskMiso sd"
    and q1: "misoBuffer sd1 = front (misoQueue sd @ respond ?m)"
            "misoQueue sd1 = tl (misoQueue sd @ respond ?m)"
    using exchange_byte_low[OF Cons.prems(1-3) len ok] by blast
  show ?case
  proof (cases pss)
    case Nil
    with r1 show ?thesis by (simp add: cycles_def)
  next
    case (Cons ps' pss')
    with Cons.prems(5) obtain b q where q: "misoQueue sd = b # q"
      by (cases "misoQueue sd") simp_all
    have q1': "misoBuffer sd1 = b" "misoQueue sd1 = q @ respond ?m"
      using q1 by (simp_all add: q front_def)
    have ok1: "\<forall>ps\<in>set pss. length ps = 8 \<and> (\<forall>p\<in>set ps. clockCycle sd1 p)"
      using Cons.prems(4) by (simp add: clockCycle_masks[OF m1(1) m1(2)])
    have le1: "length pss \<le> Suc (length (misoQueue sd1))"
      using Cons.prems(5) by (simp add: q q1')
    obtain evs sd' where r2: "run (cycles (concat pss)) sd1 =
        Some (concat (map (shiftedOut sd1) (take (length pss) (misoBuffer sd1 # misoQueue sd1))), evs, sd')"
      using Cons.IH[OF s1 ok1 le1] by blast
    have le2: "length pss \<le> Suc (length q)" using Cons.prems(5) by (simp add: q)
    have "take (length pss) ((b # q) @ respond ?m) = take (length pss) (b # q)"
      using le2 by (simp del: append_Cons)
    then have t: "take (length pss) (misoBuffer sd1 # misoQueue sd1) = take (length pss) (misoQueue sd)"
      by (simp add: q q1')
    have "run (cycles (concat (ps # pss))) sd =
       Some (shiftedOut sd (misoBuffer sd) @
             concat (map (shiftedOut sd) (take (length pss) (misoQueue sd))), ev @ evs, sd')"
      by (simp add: cycles_append run_append r1 r2 t shiftedOut_masks[OF m1(3)] cong: map_cong)
    then show ?thesis by simp
  qed
qed

lemma command_then_drain:
  assumes "index sd = 7" and "\<not> clock sd" and "mosiBuffer sd = 0"
      and "\<forall>p\<in>set ps. clockCycle sd p"
      and "map (\<lambda>p. mosiLevel sd (snd p)) ps = map (bit (0x40 :: byte)) [7, 6, 5, 4, 3, 2, 1, 0]"
      and "\<forall>ps'\<in>set pss. length ps' = 8 \<and> (\<forall>p\<in>set ps'. clockCycle sd p)"
      and "length pss \<le> length (misoQueue sd) + 4"
  shows "\<exists>evs sd'. run (cycles (ps @ concat pss)) sd =
           Some (shiftedOut sd (misoBuffer sd) @
                 concat (map (shiftedOut sd)
                           (take (length pss) (misoQueue sd @ [0xAA, 0xAB, 0xAC, 0xAD]))),
                 evs, sd')"
proof -
  from assms(5) have "length (map (\<lambda>p. mosiLevel sd (snd p)) ps) = 8" by simp
  then have len: "length ps = 8" by simp
  have m: "inbits 7 (map (\<lambda>p. mosiLevel sd (snd p)) ps) = 0x40"
    by (simp only: assms(5) inbits_bits)
  obtain ev sd1 where r1: "run (cycles ps) sd = Some (shiftedOut sd (misoBuffer sd), ev, sd1)"
    and s1: "index sd1 = 7" "\<not> clock sd1" "mosiBuffer sd1 = 0"
    and m1: "maskSs sd1 = maskSs sd" "maskSclk sd1 = maskSclk sd" "maskMiso sd1 = maskMiso sd"
    and q1: "misoBuffer sd1 = front (misoQueue sd @ respond 0x40)"
            "misoQueue sd1 = tl (misoQueue sd @ respond 0x40)"
    using exchange_byte_low[OF assms(1-3) len assms(4)] unfolding m by blast
  have L: "misoBuffer sd1 # misoQueue sd1 = misoQueue sd @ [0xAA, 0xAB, 0xAC, 0xAD]"
    by (cases "misoQueue sd") (simp_all add: q1 respond_def front_def)
  then have "length (misoBuffer sd1 # misoQueue sd1) = length (misoQueue sd) + 4"
    by (simp only: length_append) simp
  with assms(7) have le1: "length pss \<le> Suc (length (misoQueue sd1))" by simp
  have ok1: "\<forall>ps\<in>set pss. length ps = 8 \<and> (\<forall>p\<in>set ps. clockCycle sd1 p)"
    using assms(6) by (simp add: clockCycle_masks[OF m1(1) m1(2)])
  obtain evs sd' where r2: "run (cycles (concat pss)) sd1 =
      Some (concat (map (shiftedOut sd1) (take (length pss) (misoBuffer sd1 # misoQueue sd1))), evs, sd')"
    using drain[OF s1 ok1 le1] by blast
  have "run (cycles (ps @ concat pss)) sd =
       Some (shiftedOut sd (misoBuffer sd) @
             concat (map (shiftedOut sd)
                       (take (length pss) (misoQueue sd @ [0xAA, 0xAB, 0xAC, 0xAD]))), ev @ evs, sd')"
    by (simp add: cycles_append run_append r1 r2 L shiftedOut_masks[OF m1(3)] cong: map_cong)
  then show ?thesis by blast
qed

section \<open>The specified properties\<close>

text \<open>
  C2 (idle invariant). Whatever the state of the card, a sequence of \<^verbatim>\<open>Write\<close> calls
  whose port bytes all have the chip-select bit set prints nothing and leaves the card
  exactly as it was, every field included; a \<^verbatim>\<open>Read\<close> after the sequence returns what a
  \<^verbatim>\<open>Read\<close> before it returns.
\<close>

theorem idle_invariant:
  assumes "\<forall>d\<in>set ds. \<not> selected sd d"
  shows "run (map CallWrite ds) sd = Some ([], [], sd) \<and>
         run (map CallWrite ds @ [CallRead]) sd = Some ([fst (Read sd)], [], sd)"
  using assms
proof (induction ds)
  case Nil
  show ?case by (simp add: Read_def)
next
  case (Cons d ds)
  then have "Write d sd = Some ([], sd)" by (simp add: Write_deselected)
  with Cons show ?case by simp
qed

theorem idle_invariant_witness:
  "list_all (\<lambda>d. \<not> selected card0 d) [0x08, 0x09, 0xFF] \<and>
   run (map CallWrite [0x08, 0x09, 0xFF]) card0 = Some ([], [], card0) \<and>
   run (map CallWrite [0x08, 0x09, 0xFF] @ [CallRead]) card0 = Some ([0], [], card0)"
  using idle_invariant[of "[0x08, 0x09, 0xFF]" card0]
  by (simp add: selected_def card0_def Read_def)

text \<open>
  C3 (bit framing). From any state with \<open>index = 7\<close> and \<open>mosiBuffer = 0\<close>, eight clock
  cycles with the card selected, where the data-out level on the successive falling
  edges is bit 7, 6, ..., 0 of \<open>V\<close>, complete one byte: the byte that \<^verbatim>\<open>handleMosiByte\<close>
  receives and returns, and that \<^verbatim>\<open>logExchange\<close> prints, is \<open>V\<close>. The response to 0x40
  is queued exactly when \<open>V\<close> is 0x40, the input buffer is cleared and the index is back
  at 7.
\<close>

theorem bit_framing:
  assumes "index sd = 7" and "mosiBuffer sd = 0"
      and "\<forall>p\<in>set ps. clockCycle sd p"
      and "map (\<lambda>p. mosiLevel sd (snd p)) ps = map (bit V) [7, 6, 5, 4, 3, 2, 1, 0]"
  shows "\<exists>rs b sd'. run (cycles ps) sd =
            Some (rs, (if V = 0x40 then [Got0x40] else []) @ [Exchange V b], sd') \<and>
          mosiBuffer sd' = 0 \<and> index sd' = 7 \<and>
          misoBuffer sd' # misoQueue sd' =
            (if V = 0x40 then misoQueue sd @ [0xAA, 0xAB, 0xAC, 0xAD]
             else if misoQueue sd = [] then [0] else misoQueue sd)"
proof -
  from assms(4) have "length (map (\<lambda>p. mosiLevel sd (snd p)) ps) = 8" by simp
  then have len: "length ps = 8" by simp
  have m: "mosiBuffer sd OR inbits 7 (map (\<lambda>p. mosiLevel sd (snd p)) ps) = V"
    by (simp only: assms(2) assms(4) inbits_bits) simp
  show ?thesis
    unfolding exchange_byte[OF assms(1) len assms(3)] m
    by (cases "misoQueue sd") (simp_all add: shout_def respond_def front_def)
qed

theorem bit_framing_witness:
  "index card0 = 7 \<and> mosiBuffer card0 = 0 \<and>
   list_all (clockCycle card0) (hostByte card0 0x40) \<and>
   map (\<lambda>p. mosiLevel card0 (snd p)) (hostByte card0 0x40) =
     map (bit (0x40 :: byte)) [7, 6, 5, 4, 3, 2, 1, 0] \<and>
   (\<exists>rs b sd'. run (cycles (hostByte card0 0x40)) card0 =
            Some (rs, [Got0x40, Exchange 0x40 b], sd') \<and>
          mosiBuffer sd' = 0 \<and> index sd' = 7 \<and>
          misoBuffer sd' # misoQueue sd' = [0x00, 0x00, 0xFF, 0xAA, 0xAB, 0xAC, 0xAD])"
proof -
  have h: "index card0 = 7" "mosiBuffer card0 = 0"
    "\<forall>p\<in>set (hostByte card0 0x40). clockCycle card0 p"
    "map (\<lambda>p. mosiLevel card0 (snd p)) (hostByte card0 0x40) = map (bit (0x40 :: byte)) [7, 6, 5, 4, 3, 2, 1, 0]"
    by (simp_all add: card0_def hostByte_def clockCycle_def selected_def clockLevel_def
          mosiLevel_def level_def)
  from bit_framing[OF h] h show ?thesis by (simp add: card0_def list_all_iff)
qed

text \<open>
  C4 (output shift law). From any state with \<open>index = 7\<close> and the clock low, eight clock
  cycles with the card selected give, on the reads that follow the eight rising edges,
  the levels of the bits of \<open>misoBuffer\<close> from bit 7 down to bit 0, whatever the
  data-out levels of the writes are.
\<close>

theorem output_shift_law:
  assumes "index sd = 7" and "\<not> clock sd" and "length ps = 8"
      and "\<forall>p\<in>set ps. clockCycle sd p"
  shows "\<exists>evs sd'. run (cycles ps) sd = Some (shiftedOut sd (misoBuffer sd), evs, sd')"
  unfolding exchange_byte[OF assms(1) assms(3) assms(4)]
  using assms(1,2) by (simp add: shiftedOut_def misoLevel_def sample_low)

theorem output_shift_law_witness:
  "index (card0\<lparr>misoBuffer := 0xA5\<rparr>) = 7 \<and> \<not> clock (card0\<lparr>misoBuffer := 0xA5\<rparr>) \<and>
   length (hostByte card0 0x00) = 8 \<and>
   list_all (clockCycle (card0\<lparr>misoBuffer := 0xA5\<rparr>)) (hostByte card0 0x00) \<and>
   (\<exists>evs sd'. run (cycles (hostByte card0 0x00)) (card0\<lparr>misoBuffer := 0xA5\<rparr>) =
       Some ([4, 0, 4, 0, 0, 4, 0, 4], evs, sd'))"
proof -
  have h: "index (card0\<lparr>misoBuffer := 0xA5\<rparr>) = 7" "\<not> clock (card0\<lparr>misoBuffer := 0xA5\<rparr>)"
    "length (hostByte card0 0x00) = 8"
    "\<forall>p\<in>set (hostByte card0 0x00). clockCycle (card0\<lparr>misoBuffer := 0xA5\<rparr>) p"
    by (simp_all add: card0_def hostByte_def clockCycle_def selected_def clockLevel_def level_def)
  from output_shift_law[OF h] h show ?thesis
    by (simp add: card0_def list_all_iff shiftedOut_def misoLevel_def level_def)
qed

text \<open>
  C6 (queue default). \<^verbatim>\<open>handleMisoByte\<close> never panics: with a non-empty queue its head
  is removed and becomes \<^verbatim>\<open>misoBuffer\<close>, with an empty queue \<^verbatim>\<open>misoBuffer\<close> becomes
  0x00 and the queue stays empty; the byte is also the result, and no other field
  changes. So neither \<^verbatim>\<open>Write\<close> nor \<^verbatim>\<open>NewSdCard\<close>, its two callers, can panic.
\<close>

theorem dequeue_never_fails:
  "\<exists>b sd'. handleMisoByte sd = Some (b, sd') \<and>
      b = (if misoQueue sd = [] then 0x00 else hd (misoQueue sd)) \<and>
      misoBuffer sd' = b \<and>
      misoQueue sd' = (if misoQueue sd = [] then [] else tl (misoQueue sd)) \<and>
      sd' = sd\<lparr>misoBuffer := misoBuffer sd', misoQueue := misoQueue sd'\<rparr> \<and>
      Write d sd \<noteq> None \<and> NewSdCard pm \<noteq> None"
proof -
  have "Write d sd \<noteq> None" using Write_Some[of d sd] by auto
  moreover have "NewSdCard pm \<noteq> None" by (simp add: NewSdCard_eq)
  ultimately show ?thesis
    by (cases "misoQueue sd") (simp_all add: handleMisoByte_eq)
qed

theorem dequeue_never_fails_witness:
  "(\<exists>sd'. handleMisoByte card0 = Some (0x00, sd') \<and> misoBuffer sd' = 0x00 \<and> misoQueue sd' = [0x00, 0xFF]) \<and>
   (\<exists>sd'. handleMisoByte (card0\<lparr>misoBuffer := 0x55, misoQueue := []\<rparr>) = Some (0x00, sd') \<and>
       misoBuffer sd' = 0x00 \<and> misoQueue sd' = [])"
  using dequeue_never_fails[where sd = card0 and d = 0 and pm = pins0]
        dequeue_never_fails[where sd = "card0\<lparr>misoBuffer := 0x55, misoQueue := []\<rparr>"
          and d = 0 and pm = pins0]
  by (auto simp add: card0_def)

text \<open>
  C9 (output line). For every state and every port byte, \<^verbatim>\<open>Write\<close> changes \<^verbatim>\<open>readByte\<close>,
  the value \<^verbatim>\<open>Read\<close> returns, only on a rising clock edge while selected; right after
  such an edge it is the level of bit \<open>index\<close> of \<open>misoBuffer\<close> (neither of which the
  rising edge changes, nor the Miso mask). A falling edge, a write that leaves the clock level as it was, a
  deselected write and \<^verbatim>\<open>Read\<close> itself leave it as it is.
\<close>

theorem output_line_stable:
  "\<exists>ev sd'. Write d sd = Some (ev, sd') \<and>
     (if selected sd d \<and> \<not> clock sd \<and> clockLevel sd d
      then readByte sd' = misoLevel sd (bit (misoBuffer sd) (unat (index sd))) \<and>
           misoBuffer sd' = misoBuffer sd \<and> index sd' = index sd \<and> maskMiso sd' = maskMiso sd
      else readByte sd' = readByte sd) \<and>
     fst (Read sd') = readByte sd' \<and> readByte (snd (Read sd')) = readByte sd'"
proof (cases "selected sd d")
  case False
  then show ?thesis by (simp add: Write_deselected Read_def)
next
  case sel: True
  show ?thesis
  proof (cases "clockLevel sd d = clock sd")
    case True
    with sel show ?thesis by (auto simp add: Write_steady Read_def)
  next
    case False
    show ?thesis
    proof (cases "clock sd")
      case low: False
      with False have "clockLevel sd d" by simp
      with sel low show ?thesis by (simp add: Write_rising Read_def)
    next
      case high: True
      with False have nc: "\<not> clockLevel sd d" by simp
      show ?thesis
      proof (cases "index sd = 0")
        case True
        with sel high nc show ?thesis by (simp add: Write_falling_last Read_def Let_def)
      next
        case False
        with sel high nc show ?thesis by (simp add: Write_falling_mid Read_def)
      qed
    qed
  qed
qed

theorem output_line_stable_witness:
  "(\<exists>ev sd'. Write 0x01 (card0\<lparr>misoBuffer := 0x80\<rparr>) = Some (ev, sd') \<and> readByte sd' = 4) \<and>
   (\<exists>ev sd'. Write 0x00 (card0\<lparr>clock := True, readByte := 4\<rparr>) = Some (ev, sd') \<and> readByte sd' = 4)"
  using output_line_stable[of "0x01" "card0\<lparr>misoBuffer := 0x80\<rparr>"]
        output_line_stable[of "0x00" "card0\<lparr>clock := True, readByte := 4\<rparr>"]
  by (auto simp add: card0_def selected_def clockLevel_def misoLevel_def level_def)

text \<open>
  C7 (read). \<^verbatim>\<open>Read\<close> returns the card as it found it, so any number of reads in a row
  return the same byte and print nothing. For a card built by \<^verbatim>\<open>NewSdCard\<close> and driven
  by any sequence of calls, every byte a read returned, and the byte a read returns now,
  has no bit set outside the Miso bit of the pin map.
\<close>

theorem read_pure:
  "snd (Read sd) = sd \<and>
   run (replicate n CallRead) sd = Some (replicate n (fst (Read sd)), [], sd) \<and>
   (\<exists>rs evs sd'. session pm cs = Some (rs, evs, sd') \<and>
      list_all (\<lambda>r. r AND NOT (push_bit (unat (Miso pm)) 1) = 0) (rs @ [fst (Read sd')]))"
proof -
  have a: "run (replicate n CallRead) sd = Some (replicate n (fst (Read sd)), [], sd)"
    by (induction n) (simp_all add: Read_def)
  obtain rs evs sd' where s: "session pm cs = Some (rs, evs, sd')" "cardInv pm sd'"
      "list_all (\<lambda>r. r = 0 \<or> r = push_bit (unat (Miso pm)) 1) rs"
    using session_inv[of pm cs] by auto
  from s(3) have "list_all (\<lambda>r. r AND NOT (push_bit (unat (Miso pm)) 1) = 0) rs"
    by (auto simp add: list_all_iff)
  moreover from s(2) have "fst (Read sd') AND NOT (push_bit (unat (Miso pm)) 1) = 0"
    by (auto simp add: cardInv_def wired_def Read_def)
  ultimately show ?thesis using a s(1) by (simp add: Read_def)
qed

theorem read_pure_witness:
  "run [CallRead, CallRead] (card0\<lparr>readByte := 4\<rparr>) = Some ([4, 4], [], card0\<lparr>readByte := 4\<rparr>) \<and>
   (\<exists>rs evs sd'. session pins0 [CallWrite 0x01, CallRead] = Some (rs, evs, sd') \<and>
      list_all (\<lambda>r. r AND NOT 4 = 0) (rs @ [fst (Read sd')]))"
  using read_pure[of "card0\<lparr>readByte := 4\<rparr>" "Suc (Suc 0)" pins0 "[CallWrite 0x01, CallRead]"]
  by (simp add: Read_def pins0_def)

text \<open>
  C8 (bit index). \<^verbatim>\<open>NewSdCard\<close> leaves the index at 7; after any sequence of calls on
  the new card the index is at most 7 (it is unsigned, so it is in 0..7); and in any
  state, a falling edge processed with the index at 0 leaves it at 7.
\<close>

theorem index_range:
  "(\<exists>sd0. NewSdCard pm = Some sd0 \<and> index sd0 = 7) \<and>
   (\<exists>rs evs sd'. session pm cs = Some (rs, evs, sd') \<and> index sd' \<le> 7) \<and>
   (selected sd d \<and> clock sd \<and> \<not> clockLevel sd d \<and> index sd = 0 \<longrightarrow>
      (\<exists>ev sd'. Write d sd = Some (ev, sd') \<and> index sd' = 7))"
proof -
  have "\<exists>sd0. NewSdCard pm = Some sd0 \<and> index sd0 = 7"
    using NewSdCard_inv[of pm] by auto
  moreover have "\<exists>rs evs sd'. session pm cs = Some (rs, evs, sd') \<and> index sd' \<le> 7"
    using session_inv[of pm cs] by (auto simp add: cardInv_def)
  moreover have "\<exists>ev sd'. Write d sd = Some (ev, sd') \<and> index sd' = 7"
    if "selected sd d" "clock sd" "\<not> clockLevel sd d" "index sd = 0"
    using that by (simp add: Write_falling_last Let_def)
  ultimately show ?thesis by blast
qed

theorem index_range_witness:
  "selected (card0\<lparr>clock := True, index := 0\<rparr>) 0x02 \<and> clock (card0\<lparr>clock := True, index := 0\<rparr>) \<and>
   \<not> clockLevel (card0\<lparr>clock := True, index := 0\<rparr>) 0x02 \<and>
   index (card0\<lparr>clock := True, index := 0\<rparr>) = 0 \<and>
   (\<exists>ev sd'. Write 0x02 (card0\<lparr>clock := True, index := 0\<rparr>) = Some (ev, sd') \<and> index sd' = 7) \<and>
   (\<exists>rs evs sd'. session pins0 [CallWrite 0x01, CallWrite 0x00] = Some (rs, evs, sd') \<and> index sd' \<le> 7)"
  using index_range[of pins0 "[CallWrite 0x01, CallWrite 0x00]" "card0\<lparr>clock := True, index := 0\<rparr>" "0x02"]
  by (simp add: card0_def selected_def clockLevel_def)

text \<open>
  C10 (unmapped bits). For a card built by \<^verbatim>\<open>NewSdCard\<close> for the pin map \<open>pm\<close> and
  driven by any sequence of calls, two port bytes that agree at the bit positions
  \<open>Ss\<close>, \<open>Sclk\<close> and \<open>Mosi\<close> of the pin map give the same result of \<^verbatim>\<open>Write\<close>: the same
  card and the same printed lines. The Miso bit and the unmapped bits of the port byte
  are not looked at.
\<close>

theorem write_reads_three_pins:
  assumes "session pm cs = Some (rs, evs, sd)"
      and "bit d1 (unat (Ss pm)) = bit d2 (unat (Ss pm))"
      and "bit d1 (unat (Sclk pm)) = bit d2 (unat (Sclk pm))"
      and "bit d1 (unat (Mosi pm)) = bit d2 (unat (Mosi pm))"
  shows "Write d1 sd = Write d2 sd"
proof -
  from assms(1) have "wired pm sd"
    using session_inv[of pm cs] by (auto simp add: cardInv_def)
  then have "(0 < d1 AND maskSs sd) = (0 < d2 AND maskSs sd)"
       "(0 < d1 AND maskSclk sd) = (0 < d2 AND maskSclk sd)"
       "(0 < d1 AND maskMosi sd) = (0 < d2 AND maskMosi sd)"
    using assms(2-4) by (simp_all add: wired_def and_bit_pos)
  then show ?thesis by (simp add: Write_def)
qed

theorem write_reads_three_pins_witness:
  "session pins0 [CallWrite 0x01] = Some ([], [], card0\<lparr>clock := True\<rparr>) \<and>
   bit (0x02 :: byte) (unat (Ss pins0)) = bit (0xF6 :: byte) (unat (Ss pins0)) \<and>
   bit (0x02 :: byte) (unat (Sclk pins0)) = bit (0xF6 :: byte) (unat (Sclk pins0)) \<and>
   bit (0x02 :: byte) (unat (Mosi pins0)) = bit (0xF6 :: byte) (unat (Mosi pins0)) \<and>
   Write 0x02 (card0\<lparr>clock := True\<rparr>) = Write 0xF6 (card0\<lparr>clock := True\<rparr>)"
proof -
  have s: "session pins0 [CallWrite 0x01] = Some ([], [], card0\<lparr>clock := True\<rparr>)"
    by (simp add: session_def NewSdCard_eq pins0_def card0_def Write_def Let_def)
  have b: "bit (0x02 :: byte) (unat (Ss pins0)) = bit (0xF6 :: byte) (unat (Ss pins0))"
    "bit (0x02 :: byte) (unat (Sclk pins0)) = bit (0xF6 :: byte) (unat (Sclk pins0))"
    "bit (0x02 :: byte) (unat (Mosi pins0)) = bit (0xF6 :: byte) (unat (Mosi pins0))"
    by (simp_all add: pins0_def)
  from write_reads_three_pins[OF s b] s b show ?thesis by simp
qed

text \<open>
  C5 (command trigger), as the code has it. \<^verbatim>\<open>handleMosiByte\<close> returns the completed
  byte, clears the input buffer, and appends 0xAA, 0xAB, 0xAC, 0xAD in this order to the
  tail of the queue when the byte is 0x40, and nothing otherwise. After a byte 0x40 sent
  from a byte boundary (index 7, clock low, input buffer empty), the bytes shifted out
  after the one in flight are the bytes that were waiting in the queue, in order, and
  then 0xAA, 0xAB, 0xAC, 0xAD, whatever the host sends meanwhile. With an empty queue they
  are the next four bytes.
\<close>

theorem command_trigger:
  "handleMosiByte sd =
     (mosiBuffer sd, (if mosiBuffer sd = 0x40 then [Got0x40] else []),
      sd\<lparr>mosiBuffer := 0,
         misoQueue := misoQueue sd @
           (if mosiBuffer sd = 0x40 then [0xAA, 0xAB, 0xAC, 0xAD] else [])\<rparr>) \<and>
   (index sd = 7 \<and> \<not> clock sd \<and> mosiBuffer sd = 0 \<and>
    (\<forall>p\<in>set ps. clockCycle sd p) \<and>
    map (\<lambda>p. mosiLevel sd (snd p)) ps = map (bit (0x40 :: byte)) [7, 6, 5, 4, 3, 2, 1, 0] \<and>
    (\<forall>ps'\<in>set pss. length ps' = 8 \<and> (\<forall>p\<in>set ps'. clockCycle sd p)) \<and>
    length pss \<le> length (misoQueue sd) + 4 \<longrightarrow>
    (\<exists>evs sd'. run (cycles (ps @ concat pss)) sd =
        Some (shiftedOut sd (misoBuffer sd) @
              concat (map (shiftedOut sd)
                        (take (length pss) (misoQueue sd @ [0xAA, 0xAB, 0xAC, 0xAD]))),
              evs, sd')))"
proof -
  have "handleMosiByte sd =
     (mosiBuffer sd, (if mosiBuffer sd = 0x40 then [Got0x40] else []),
      sd\<lparr>mosiBuffer := 0,
         misoQueue := misoQueue sd @
           (if mosiBuffer sd = 0x40 then [0xAA, 0xAB, 0xAC, 0xAD] else [])\<rparr>)"
    by (simp add: handleMosiByte_def queueMiso_def Let_def)
  then show ?thesis using command_then_drain[of sd ps pss] by blast
qed

theorem command_trigger_witness:
  "misoQueue (card0\<lparr>misoQueue := []\<rparr>) = [] \<and>
   (\<exists>evs sd'.
      run (cycles (hostByte card0 0x40 @
             concat [hostByte card0 0xFF, hostByte card0 0x40, hostByte card0 0x00, hostByte card0 0xFF]))
          (card0\<lparr>misoQueue := []\<rparr>) =
      Some (concat (map (shiftedOut card0) [0x00, 0xAA, 0xAB, 0xAC, 0xAD]), evs, sd'))"
proof -
  let ?sd = "card0\<lparr>misoQueue := []\<rparr>"
  let ?pss = "[hostByte card0 0xFF, hostByte card0 0x40, hostByte card0 0x00, hostByte card0 0xFF]"
  have h: "index ?sd = 7 \<and> \<not> clock ?sd \<and> mosiBuffer ?sd = 0 \<and>
    (\<forall>p\<in>set (hostByte card0 0x40). clockCycle ?sd p) \<and>
    map (\<lambda>p. mosiLevel ?sd (snd p)) (hostByte card0 0x40) = map (bit (0x40 :: byte)) [7, 6, 5, 4, 3, 2, 1, 0] \<and>
    (\<forall>ps'\<in>set ?pss. length ps' = 8 \<and> (\<forall>p\<in>set ps'. clockCycle ?sd p)) \<and>
    length ?pss \<le> length (misoQueue ?sd) + 4"
    by (simp add: card0_def hostByte_def clockCycle_def selected_def clockLevel_def
          mosiLevel_def level_def)
  have "shiftedOut ?sd = shiftedOut card0"
    by (rule ext) (simp add: shiftedOut_def misoLevel_def)
  with command_trigger[of ?sd "hostByte card0 0x40" ?pss] h show ?thesis
    by (simp add: card0_def)
qed

text \<open>
  C5 as the specification words it fails on the card \<^verbatim>\<open>NewSdCard\<close> has just built: its queue
  still holds the power-on bytes, so the four bytes shifted out after the one in flight
  are 0x00, 0x00, 0xFF, 0xAA and not 0xAA, 0xAB, 0xAC, 0xAD.
\<close>

theorem command_trigger_counterexample:
  "NewSdCard pins0 = Some card0 \<and>
   map_option fst
     (run (cycles (hostByte card0 0x40 @
             concat [hostByte card0 0xFF, hostByte card0 0xFF, hostByte card0 0xFF, hostByte card0 0xFF]))
          card0) =
     Some (concat [shiftedOut card0 0x00, shiftedOut card0 0x00, shiftedOut card0 0x00,
                   shiftedOut card0 0xFF, shiftedOut card0 0xAA]) \<and>
   concat [shiftedOut card0 0x00, shiftedOut card0 0x00, shiftedOut card0 0x00,
           shiftedOut card0 0xFF, shiftedOut card0 0xAA] \<noteq>
   concat [shiftedOut card0 0x00, shiftedOut card0 0xAA, shiftedOut card0 0xAB,
           shiftedOut card0 0xAC, shiftedOut card0 0xAD]"
proof -
  let ?pss = "[hostByte card0 0xFF, hostByte card0 0xFF, hostByte card0 0xFF, hostByte card0 0xFF]"
  have c: "NewSdCard pins0 = Some card0"
    by (simp add: NewSdCard_eq pins0_def card0_def)
  have h: "index card0 = 7" "\<not> clock card0" "mosiBuffer card0 = 0"
    "\<forall>p\<in>set (hostByte card0 0x40). clockCycle card0 p"
    "map (\<lambda>p. mosiLevel card0 (snd p)) (hostByte card0 0x40) = map (bit (0x40 :: byte)) [7, 6, 5, 4, 3, 2, 1, 0]"
    "\<forall>ps'\<in>set ?pss. length ps' = 8 \<and> (\<forall>p\<in>set ps'. clockCycle card0 p)"
    "length ?pss \<le> length (misoQueue card0) + 4"
    by (simp_all add: card0_def hostByte_def clockCycle_def selected_def clockLevel_def
          mosiLevel_def level_def)
  have q: "misoBuffer card0 = 0x00" "misoQueue card0 = [0x00, 0x00, 0xFF]"
    by (simp_all add: card0_def)
  obtain evs sd' where "run (cycles (hostByte card0 0x40 @ concat ?pss)) card0 =
      Some (shiftedOut card0 (misoBuffer card0) @
            concat (map (shiftedOut card0)
                      (take (length ?pss) (misoQueue card0 @ [0xAA, 0xAB, 0xAC, 0xAD]))), evs, sd')"
    using command_then_drain[OF h] by blast
  then have r: "map_option fst (run (cycles (hostByte card0 0x40 @ concat ?pss)) card0) =
     Some (concat [shiftedOut card0 0x00, shiftedOut card0 0x00, shiftedOut card0 0x00,
                   shiftedOut card0 0xFF, shiftedOut card0 0xAA])"
    by (simp add: q)
  have n: "concat [shiftedOut card0 0x00, shiftedOut card0 0x00, shiftedOut card0 0x00,
           shiftedOut card0 0xFF, shiftedOut card0 0xAA] \<noteq>
     concat [shiftedOut card0 0x00, shiftedOut card0 0xAA, shiftedOut card0 0xAB,
           shiftedOut card0 0xAC, shiftedOut card0 0xAD]"
    by (simp add: shiftedOut_def misoLevel_def level_def card0_def)
  from c r n show ?thesis by blast
qed

text \<open>
  C1 (power-on sequence), on the code as it is. \<^verbatim>\<open>NewSdCard\<close> queues four bytes,
  0x00, 0x00, 0x00, 0xFF, and dequeues the first into \<^verbatim>\<open>misoBuffer\<close>: three bytes stay
  queued. The first three bytes shifted out of the new card are 0x00, 0x00, 0x00, and
  0xFF is the fourth.
\<close>

theorem power_on_sequence:
  "(\<exists>sd. NewSdCard pm = Some sd \<and> misoBuffer sd = 0x00 \<and> misoQueue sd = [0x00, 0x00, 0xFF]) \<and>
   NewSdCard pins0 = Some card0 \<and>
   map_option fst
     (run (cycles (concat [hostByte card0 0xFF, hostByte card0 0xFF, hostByte card0 0xFF,
                           hostByte card0 0xFF])) card0) =
     Some (concat [shiftedOut card0 0x00, shiftedOut card0 0x00, shiftedOut card0 0x00,
                   shiftedOut card0 0xFF])"
proof -
  let ?pss = "[hostByte card0 0xFF, hostByte card0 0xFF, hostByte card0 0xFF, hostByte card0 0xFF]"
  have a: "\<exists>sd. NewSdCard pm = Some sd \<and> misoBuffer sd = 0x00 \<and> misoQueue sd = [0x00, 0x00, 0xFF]"
    by (simp add: NewSdCard_eq)
  have c: "NewSdCard pins0 = Some card0"
    by (simp add: NewSdCard_eq pins0_def card0_def)
  have h: "index card0 = 7" "\<not> clock card0" "mosiBuffer card0 = 0"
    "\<forall>ps'\<in>set ?pss. length ps' = 8 \<and> (\<forall>p\<in>set ps'. clockCycle card0 p)"
    "length ?pss \<le> Suc (length (misoQueue card0))"
    by (simp_all add: card0_def hostByte_def clockCycle_def selected_def clockLevel_def level_def)
  have q: "misoBuffer card0 = 0x00" "misoQueue card0 = [0x00, 0x00, 0xFF]"
    by (simp_all add: card0_def)
  obtain evs sd' where "run (cycles (concat ?pss)) card0 =
      Some (concat (map (shiftedOut card0) (take (length ?pss) (misoBuffer card0 # misoQueue card0))),
            evs, sd')"
    using drain[OF h] by blast
  then have "map_option fst (run (cycles (concat ?pss)) card0) =
     Some (concat [shiftedOut card0 0x00, shiftedOut card0 0x00, shiftedOut card0 0x00,
                   shiftedOut card0 0xFF])"
    by (simp add: q)
  with a c show ?thesis by blast
qed

end
